theory Spec2Isabelle
  imports Main "HOL-Library.Word"
begin

unbundle bit_operations_syntax

section \<open>XSalsa20-Poly1305 secretbox: the C core of xsalsa20poly1305.c\<close>

text \<open>
  The embedding follows \<^verbatim>\<open>src/cbits/xsalsa20poly1305/xsalsa20poly1305.c\<close>.
  An \<^verbatim>\<open>unsigned char\<close> is an \<open>8 word\<close>, the file's \<^verbatim>\<open>uint32\<close> a \<open>32 word\<close>.
  A pointer to bytes is the list of the bytes from that address on, so \<^verbatim>\<open>k + 4\<close> is
  \<open>drop 4 k\<close> and \<^verbatim>\<open>x[i]\<close> is \<open>x ! i\<close>; a buffer passed with its length
  (\<^verbatim>\<open>m, mlen\<close>) is the list of its \<^verbatim>\<open>mlen\<close> bytes. A length (\<^verbatim>\<open>unsigned long long\<close>)
  is a \<open>nat\<close>, since no buffer reaches \<open>2 ^ 64\<close> bytes. Reading past the end of a buffer
  is undefined in C and unspecified here (\<open>xs ! i\<close>); the theorems state the lengths
  they need.
\<close>

type_synonym byte = "8 word"
type_synonym uint32 = "32 word"

subsection \<open>Constants (lines 7 and 9)\<close>

definition sigma :: "byte list" where
  "sigma = map of_char ''expand 32-byte k''"

definition ROUNDS :: int where
  "ROUNDS = 20"

subsection \<open>Word helpers (lines 13--34)\<close>

text \<open>
  \<^verbatim>\<open>rotate(u, c)\<close> is \<^verbatim>\<open>(u << c) | (u >> (32 - c))\<close> with \<^verbatim>\<open>int c\<close>. A C shift of a
  32-bit value is defined only for an amount from 0 to 31; \<open>shift_defined\<close> is that rule.
\<close>

definition rotate :: "uint32 \<Rightarrow> int \<Rightarrow> uint32" where
  "rotate u c = push_bit (nat c) u OR drop_bit (nat (32 - c)) u"

definition shift_defined :: "int \<Rightarrow> bool" where
  "shift_defined s = (0 \<le> s \<and> s < 32)"

definition load_littleendian :: "byte list \<Rightarrow> uint32" where
  "load_littleendian x =
     ucast (x ! 0)
     OR push_bit 8 (ucast (x ! 1))
     OR push_bit 16 (ucast (x ! 2))
     OR push_bit 24 (ucast (x ! 3))"

definition store_littleendian :: "uint32 \<Rightarrow> byte list" where
  "store_littleendian u =
     (let x0 = ucast u; u1 = drop_bit 8 u;
          x1 = ucast u1; u2 = drop_bit 8 u1;
          x2 = ucast u2; u3 = drop_bit 8 u2;
          x3 = ucast u3
      in [x0, x1, x2, x3])"

subsection \<open>The round network (lines 63--96 and 139--172)\<close>

text \<open>
  The sixteen variables \<^verbatim>\<open>x0\<close> .. \<^verbatim>\<open>x15\<close> are a list of sixteen words. Each statement
  \<^verbatim>\<open>xT ^= rotate(xA + xB, C)\<close> of a loop body is the entry \<open>(T, A, B, C)\<close> of a table,
  in the order of the source lines, and \<open>quarter\<close> executes one entry.
\<close>

type_synonym rstep = "nat \<times> nat \<times> nat \<times> int"

definition quarter :: "rstep \<Rightarrow> uint32 list \<Rightarrow> uint32 list" where
  "quarter s x = (case s of (t, a, b, c) \<Rightarrow> x[t := (x ! t) XOR rotate (x ! a + x ! b) c])"

definition hsalsa20_body :: "rstep list" where
  "hsalsa20_body =
    [( 4,  0, 12,  7), ( 8,  4,  0,  9), (12,  8,  4, 13), ( 0, 12,  8, 18),
     ( 9,  5,  1,  7), (13,  9,  5,  9), ( 1, 13,  9, 13), ( 5,  1, 13, 18),
     (14, 10,  6,  7), ( 2, 14, 10,  9), ( 6,  2, 14, 13), (10,  6,  2, 18),
     ( 3, 15, 11,  7), ( 7,  3, 15,  9), (11,  7,  3, 13), (15, 11,  7, 18),
     ( 1,  0,  3,  7), ( 2,  1,  0,  9), ( 3,  2,  1, 13), ( 0,  3,  2, 18),
     ( 6,  5,  4,  7), ( 7,  6,  5,  9), ( 4,  7,  6, 13), ( 5,  4,  7, 18),
     (11, 10,  9,  7), ( 8, 11, 10,  9), ( 9,  8, 11, 13), (10,  9,  8, 18),
     (12, 15, 14,  7), (13, 12, 15,  9), (14, 13, 12, 13), (15, 14, 13, 18)]"

definition salsa20_body :: "rstep list" where
  "salsa20_body =
    [( 4,  0, 12,  7), ( 8,  4,  0,  9), (12,  8,  4, 13), ( 0, 12,  8, 18),
     ( 9,  5,  1,  7), (13,  9,  5,  9), ( 1, 13,  9, 13), ( 5,  1, 13, 18),
     (14, 10,  6,  7), ( 2, 14, 10,  9), ( 6,  2, 14, 13), (10,  6,  2, 18),
     ( 3, 15, 11,  7), ( 7,  3, 15,  9), (11,  7,  3, 13), (15, 11,  7, 18),
     ( 1,  0,  3,  7), ( 2,  1,  0,  9), ( 3,  2,  1, 13), ( 0,  3,  2, 18),
     ( 6,  5,  4,  7), ( 7,  6,  5,  9), ( 4,  7,  6, 13), ( 5,  4,  7, 18),
     (11, 10,  9,  7), ( 8, 11, 10,  9), ( 9,  8, 11, 13), (10,  9,  8, 18),
     (12, 15, 14,  7), (13, 12, 15,  9), (14, 13, 12, 13), (15, 14, 13, 18)]"

text \<open>\<^verbatim>\<open>for (i = ROUNDS; i > 0; i -= 2) { body }\<close>\<close>

function rounds :: "rstep list \<Rightarrow> int \<Rightarrow> uint32 list \<Rightarrow> uint32 list" where
  "rounds body i x = (if i > 0 then rounds body (i - 2) (fold quarter body x) else x)"
  by pat_completeness auto
termination
  by (relation "measure (\<lambda>(body, i, x). nat i)") auto

declare rounds.simps [simp del]

subsection \<open>HSalsa20 (lines 36--108)\<close>

text \<open>The sixteen loads of lines 46--61 (the same as lines 122--137), \<^verbatim>\<open>x0\<close> first.\<close>

definition load_words :: "byte list \<Rightarrow> byte list \<Rightarrow> byte list \<Rightarrow> uint32 list" where
  "load_words inp k c =
    [load_littleendian (drop 0 c),
     load_littleendian (drop 0 k),
     load_littleendian (drop 4 k),
     load_littleendian (drop 8 k),
     load_littleendian (drop 12 k),
     load_littleendian (drop 4 c),
     load_littleendian (drop 0 inp),
     load_littleendian (drop 4 inp),
     load_littleendian (drop 8 inp),
     load_littleendian (drop 12 inp),
     load_littleendian (drop 8 c),
     load_littleendian (drop 16 k),
     load_littleendian (drop 20 k),
     load_littleendian (drop 24 k),
     load_littleendian (drop 28 k),
     load_littleendian (drop 12 c)]"

text \<open>
  The function fills all 32 bytes of \<^verbatim>\<open>out\<close>, by the eight stores of lines 98--105 at
  offsets 0, 4, .., 28; the model returns these bytes.
\<close>

definition crypto_core_hsalsa20 :: "byte list \<Rightarrow> byte list \<Rightarrow> byte list \<Rightarrow> byte list" where
  "crypto_core_hsalsa20 inp k c =
    (let x = rounds hsalsa20_body ROUNDS (load_words inp k c)
     in store_littleendian (x ! 0)
      @ store_littleendian (x ! 5)
      @ store_littleendian (x ! 10)
      @ store_littleendian (x ! 15)
      @ store_littleendian (x ! 6)
      @ store_littleendian (x ! 7)
      @ store_littleendian (x ! 8)
      @ store_littleendian (x ! 9))"

subsection \<open>Salsa20 (lines 111--209)\<close>

text \<open>
  \<open>salsa20_words\<close> is the state after line 189: the loads into \<^verbatim>\<open>j0\<close> .. \<^verbatim>\<open>j15\<close> and
  \<^verbatim>\<open>x0\<close> .. \<^verbatim>\<open>x15\<close>, the loop, and the sixteen additions \<^verbatim>\<open>xI += jI\<close>.
\<close>

definition salsa20_words :: "byte list \<Rightarrow> byte list \<Rightarrow> byte list \<Rightarrow> uint32 list" where
  "salsa20_words inp k c =
    (let j = load_words inp k c;
         x = rounds salsa20_body ROUNDS j
     in map2 (+) x j)"

text \<open>The sixteen stores of lines 191--206 at offsets 0, 4, .., 60 fill all 64 bytes.\<close>

definition crypto_core_salsa20 :: "byte list \<Rightarrow> byte list \<Rightarrow> byte list \<Rightarrow> byte list" where
  "crypto_core_salsa20 inp k c =
    (let x = salsa20_words inp k c
     in store_littleendian (x ! 0)
      @ store_littleendian (x ! 1)
      @ store_littleendian (x ! 2)
      @ store_littleendian (x ! 3)
      @ store_littleendian (x ! 4)
      @ store_littleendian (x ! 5)
      @ store_littleendian (x ! 6)
      @ store_littleendian (x ! 7)
      @ store_littleendian (x ! 8)
      @ store_littleendian (x ! 9)
      @ store_littleendian (x ! 10)
      @ store_littleendian (x ! 11)
      @ store_littleendian (x ! 12)
      @ store_littleendian (x ! 13)
      @ store_littleendian (x ! 14)
      @ store_littleendian (x ! 15))"

subsection \<open>Effects that the claims speak about\<close>

text \<open>
  The functions above the two cores return, next to their result, the list of the events
  of the call in program order: each call of a core permutation, each call of the MAC,
  and the release of a local array. \<open>Dead_local bs\<close> stands at the \<^verbatim>\<open>return\<close> of a function
  that has a local array \<^verbatim>\<open>subkey\<close>: the array holds the bytes \<open>bs\<close> at that moment, and
  the return releases it. The three functions with such an array write it once, by the
  call that fills it, and afterwards only pass it on as a \<^verbatim>\<open>const\<close> pointer, so \<open>bs\<close> is
  what that call wrote. A return before the array is written has no such event. The
  model says nothing about the released memory after the return.
\<close>

datatype event =
    Core_hsalsa20
  | Core_salsa20
  | Mac_auth
  | Mac_verify
  | Dead_local "byte list"

subsection \<open>Salsa20 stream (lines 211--286)\<close>

text \<open>
  Lines 230--235 (and 269--274), the loop over the counter bytes after \<^verbatim>\<open>u = 1\<close>:
  \<^verbatim>\<open>for (i = 8; i < 16; ++i) { u += (unsigned int) in[i]; in[i] = u; u >>= 8; }\<close>
\<close>

function carry_loop :: "nat \<Rightarrow> uint32 \<Rightarrow> byte list \<Rightarrow> byte list" where
  "carry_loop i u inp =
     (if i < 16
      then (let u1 = u + ucast (inp ! i)
            in carry_loop (i + 1) (drop_bit 8 u1) (inp[i := ucast u1]))
      else inp)"
  by pat_completeness auto
termination
  by (relation "measure (\<lambda>(i, u, inp). 16 - i)") auto

declare carry_loop.simps [simp del]

text \<open>Lines 224--225 (and 262--263): \<^verbatim>\<open>in[i] = n[i]\<close> for \<open>i < 8\<close>, then eight zero bytes.\<close>

definition block_input :: "byte list \<Rightarrow> byte list" where
  "block_input n = map (\<lambda>i. n ! i) [0..<8] @ replicate 8 0"

text \<open>
  \<open>salsa20_blocks\<close> is the \<^verbatim>\<open>while (clen >= 64)\<close> loop of lines 227--239 followed by the
  \<^verbatim>\<open>if (clen)\<close> of lines 241--244. The function writes \<^verbatim>\<open>clen\<close> bytes from \<^verbatim>\<open>c\<close> on and reads
  none of them; the model returns the bytes written.
\<close>

function salsa20_blocks :: "byte list \<Rightarrow> nat \<Rightarrow> byte list \<Rightarrow> byte list \<times> event list" where
  "salsa20_blocks inp clen k =
     (if clen \<ge> 64
      then (let block = crypto_core_salsa20 inp k sigma;
                r = salsa20_blocks (carry_loop 8 1 inp) (clen - 64) k
            in (block @ fst r, Core_salsa20 # snd r))
      else if clen \<noteq> 0
      then (let block = crypto_core_salsa20 inp k sigma
            in (map (\<lambda>i. block ! i) [0..<clen], [Core_salsa20]))
      else ([], []))"
  by pat_completeness auto
termination
  by (relation "measure (\<lambda>(inp, clen, k). clen)") auto

declare salsa20_blocks.simps [simp del]

definition crypto_stream_salsa20 :: "nat \<Rightarrow> byte list \<Rightarrow> byte list \<Rightarrow> byte list \<times> event list" where
  "crypto_stream_salsa20 clen n k =
     (if clen = 0 then ([], [])
      else salsa20_blocks (block_input n) clen k)"

text \<open>
  Lines 265--284, with \<^verbatim>\<open>mlen\<close> the length of the list \<open>m\<close>; \<^verbatim>\<open>m += 64\<close> is \<open>drop 64 m\<close>.
\<close>

function salsa20_xor_blocks :: "byte list \<Rightarrow> byte list \<Rightarrow> byte list \<Rightarrow> byte list \<times> event list" where
  "salsa20_xor_blocks inp m k =
     (if length m \<ge> 64
      then (let block = crypto_core_salsa20 inp k sigma;
                r = salsa20_xor_blocks (carry_loop 8 1 inp) (drop 64 m) k
            in (map (\<lambda>i. m ! i XOR block ! i) [0..<64] @ fst r, Core_salsa20 # snd r))
      else if length m \<noteq> 0
      then (let block = crypto_core_salsa20 inp k sigma
            in (map (\<lambda>i. m ! i XOR block ! i) [0..<length m], [Core_salsa20]))
      else ([], []))"
  by pat_completeness auto
termination
  by (relation "measure (\<lambda>(inp, m, k). length m)") auto

declare salsa20_xor_blocks.simps [simp del]

definition crypto_stream_salsa20_xor :: "byte list \<Rightarrow> byte list \<Rightarrow> byte list \<Rightarrow> byte list \<times> event list" where
  "crypto_stream_salsa20_xor m n k =
     (if length m = 0 then ([], [])
      else salsa20_xor_blocks (block_input n) m k)"

subsection \<open>XSalsa20 (lines 288--309)\<close>

definition xsalsa20_stream_xor :: "byte list \<Rightarrow> byte list \<Rightarrow> byte list \<Rightarrow> byte list \<times> event list" where
  "xsalsa20_stream_xor m n k =
     (let subkey = crypto_core_hsalsa20 n k sigma;
          r = crypto_stream_salsa20_xor m (drop 16 n) subkey
      in (fst r, Core_hsalsa20 # snd r @ [Dead_local subkey]))"

definition xsalsa20_stream :: "nat \<Rightarrow> byte list \<Rightarrow> byte list \<Rightarrow> byte list \<times> event list" where
  "xsalsa20_stream clen n k =
     (let subkey = crypto_core_hsalsa20 n k sigma;
          r = crypto_stream_salsa20 clen (drop 16 n) subkey
      in (fst r, Core_hsalsa20 # snd r @ [Dead_local subkey]))"

subsection \<open>Poly1305\<close>

text \<open>
  Modelled from the spec: the MAC functions \<^verbatim>\<open>poly1305_auth\<close> and
  \<^verbatim>\<open>poly1305_auth_verify\<close> come from \<^verbatim>\<open>../poly1305-donna/poly1305-donna.c\<close>
  (included in line 4), which is not among the sources. They are parameters of the model:
  \<open>auth\<close> maps a message and a 32-byte key to the tag that the C function writes to its
  first argument, and \<open>auth_verify\<close> maps a tag, a message and a key to the C return
  value, which \<^verbatim>\<open>secretbox_open\<close> compares with 0. \<open>poly1305_contract\<close> is the contract of
  section 6 of the specification as far as the round trip needs it: a tag has 16 bytes,
  and verification accepts the tag that \<open>auth\<close> computes. In the call of line 324 the
  key \<^verbatim>\<open>c[0..32)\<close> and the tag \<^verbatim>\<open>c[16..32)\<close> overlap; the model takes the key and the
  message as read before the tag is written.
\<close>

record poly1305 =
  auth :: "byte list \<Rightarrow> byte list \<Rightarrow> byte list"
  auth_verify :: "byte list \<Rightarrow> byte list \<Rightarrow> byte list \<Rightarrow> int"

definition poly1305_contract :: "poly1305 \<Rightarrow> bool" where
  "poly1305_contract P =
     (\<forall>msg key. length (auth P msg key) = 16 \<and> auth_verify P (auth P msg key) msg key = 0)"

subsection \<open>Secretbox (lines 314--347)\<close>

text \<open>
  Both functions return \<^verbatim>\<open>-1\<close> on either failure and \<^verbatim>\<open>0\<close> on success; the model names
  the failure by the \<^verbatim>\<open>return\<close> that produces it. \<open>return_value\<close> is the C \<^verbatim>\<open>int\<close>.
\<close>

datatype error = InvalidInputLength | AuthenticationFailure

definition return_value :: "error option \<Rightarrow> int" where
  "return_value r = (case r of None \<Rightarrow> 0 | Some e \<Rightarrow> - 1)"

text \<open>
  The output buffer is an argument (its contents before the call) and a result (its
  contents after). \<open>store_at buf off bs\<close> writes the bytes \<open>bs\<close> at \<^verbatim>\<open>buf + off\<close>.
\<close>

definition store_at :: "byte list \<Rightarrow> nat \<Rightarrow> byte list \<Rightarrow> byte list" where
  "store_at buf off bs = take off buf @ bs @ drop (off + length bs) buf"

definition xsalsa20poly1305_secretbox ::
  "poly1305 \<Rightarrow> byte list \<Rightarrow> byte list \<Rightarrow> byte list \<Rightarrow> byte list
     \<Rightarrow> error option \<times> byte list \<times> event list" where
  "xsalsa20poly1305_secretbox P c m n k =
     (if length m < 32 then (Some InvalidInputLength, c, [])
      else
        (let r = xsalsa20_stream_xor m n k;
             c1 = store_at c 0 (fst r);
             c2 = store_at c1 16 (auth P (take (length m - 32) (drop 32 c1)) (take 32 c1));
             c3 = store_at c2 0 (replicate 16 0)
         in (None, c3, snd r @ [Mac_auth])))"

definition xsalsa20poly1305_secretbox_open ::
  "poly1305 \<Rightarrow> byte list \<Rightarrow> byte list \<Rightarrow> byte list \<Rightarrow> byte list
     \<Rightarrow> error option \<times> byte list \<times> event list" where
  "xsalsa20poly1305_secretbox_open P m c n k =
     (if length c < 32 then (Some InvalidInputLength, m, [])
      else
        (let s = xsalsa20_stream 32 n k;
             subkey = fst s
         in if auth_verify P (take 16 (drop 16 c)) (take (length c - 32) (drop 32 c)) subkey \<noteq> 0
            then (Some AuthenticationFailure, m, snd s @ [Mac_verify, Dead_local subkey])
            else
              (let r = xsalsa20_stream_xor c n k;
                   m1 = store_at m 0 (fst r);
                   m2 = store_at m1 0 (replicate 32 0)
               in (None, m2, snd s @ [Mac_verify] @ snd r @ [Dead_local subkey]))))"

section \<open>The specification's notions\<close>

text \<open>
  These definitions follow the words of the specification, not the source; the theorems
  below compare the source's functions with them.
\<close>

text \<open>A 32-bit word as four little-endian bytes: byte \<open>i\<close> holds bits \<open>8 i\<close> to \<open>8 i + 7\<close>.\<close>

definition le32_bytes :: "uint32 \<Rightarrow> byte list" where
  "le32_bytes w = map (\<lambda>i. ucast (drop_bit (8 * i) w)) [0..<4]"

text \<open>A byte sequence read as consecutive 32-bit words, four bytes each.\<close>

definition words_of :: "byte list \<Rightarrow> uint32 list" where
  "words_of bs = map (\<lambda>i. load_littleendian (drop (4 * i) bs)) [0..<length bs div 4]"

text \<open>
  A number as \<open>len\<close> little-endian bytes (its value modulo \<open>256 ^ len\<close>); the 8-byte
  block counter with value \<open>j\<close> is \<open>le_bytes 8 j\<close>.
\<close>

fun le_bytes :: "nat \<Rightarrow> nat \<Rightarrow> byte list" where
  "le_bytes 0 v = []"
| "le_bytes (Suc len) v = of_nat (v mod 256) # le_bytes len (v div 256)"

text \<open>
  Section 4.3: keystream block \<open>j\<close> is the feedback core applied to the block input
  nonce \<open>\<parallel>\<close> counter \<open>j\<close>, the key and the constant; the keystream of a given length is
  the leading bytes of the blocks 0, 1, 2, .. put one after the other, as many blocks
  as the length needs.
\<close>

definition keystream_block :: "byte list \<Rightarrow> byte list \<Rightarrow> nat \<Rightarrow> byte list" where
  "keystream_block k n j = crypto_core_salsa20 (n @ le_bytes 8 j) k sigma"

definition keystream :: "nat \<Rightarrow> byte list \<Rightarrow> byte list \<Rightarrow> byte list" where
  "keystream len n k = take len (concat (map (keystream_block k n) [0..<(len + 63) div 64]))"

text \<open>
  The carry loop of lines 230--235 as a recursion over the counter bytes alone; it is
  used in the proofs only (lemma \<open>carry_loop_add_carry\<close> relates it to \<open>carry_loop\<close>).
\<close>

fun add_carry :: "uint32 \<Rightarrow> byte list \<Rightarrow> byte list" where
  "add_carry u [] = []"
| "add_carry u (b # bs) = ucast (u + ucast b) # add_carry (drop_bit 8 (u + ucast b)) bs"

section \<open>Inputs for the instances\<close>

text \<open>Two stand-ins for the MAC: one accepts exactly the tag it computes, one accepts nothing.\<close>

definition length_mac :: poly1305 where
  "length_mac =
     \<lparr> auth = (\<lambda>msg key. replicate 16 (of_nat (length msg))),
       auth_verify = (\<lambda>tag msg key. if tag = replicate 16 (of_nat (length msg)) then 0 else - 1) \<rparr>"

definition rejecting_mac :: poly1305 where
  "rejecting_mac =
     \<lparr> auth = (\<lambda>msg key. replicate 16 0),
       auth_verify = (\<lambda>tag msg key. - 1) \<rparr>"

definition key0 :: "byte list" where
  "key0 = replicate 32 1"

definition nonce0 :: "byte list" where
  "nonce0 = replicate 24 0"

section \<open>Properties\<close>

subsection \<open>Lengths\<close>

lemma length_store_littleendian [simp]: "length (store_littleendian u) = 4"
  by (simp add: store_littleendian_def Let_def)

lemma length_crypto_core_hsalsa20 [simp]: "length (crypto_core_hsalsa20 inp k c) = 32"
  by (simp add: crypto_core_hsalsa20_def Let_def)

lemma length_crypto_core_salsa20 [simp]: "length (crypto_core_salsa20 inp k c) = 64"
  by (simp add: crypto_core_salsa20_def Let_def)

lemma store_littleendian_le32: "store_littleendian u = le32_bytes u"
  by (simp add: store_littleendian_def le32_bytes_def Let_def drop_bit_drop_bit upt_rec
      numeral_eq_Suc)

subsection \<open>The rotation\<close>

lemma rotl_bits:
  fixes u :: uint32
  assumes d: "0 < d" "d < 32"
  shows "push_bit d u OR drop_bit (32 - d) u = word_rotl d u"
proof (rule bit_word_eqI)
  fix n assume n: "n < LENGTH(32)"
  show "bit (push_bit d u OR drop_bit (32 - d) u) n = bit (word_rotl d u) n"
  proof (cases "d \<le> n")
    case True
    have "n + (32 - d) = 32 + (n - d)"
      using True d by arith
    moreover have "n - d < 32"
      using n by simp
    ultimately have m: "(n + (32 - d)) mod 32 = n - d"
      by simp
    have "\<not> bit u (32 - d + n)"
      using True d by (auto dest: bit_imp_le_length)
    then show ?thesis
      using True n d m by (simp add: bit_simps)
  next
    case False
    have "n + (32 - d) < 32"
      using False d by arith
    then have m: "(n + (32 - d)) mod 32 = 32 - d + n"
      by simp
    show ?thesis
      using False n d m by (simp add: bit_simps)
  qed
qed

lemma rotate_is_rotl:
  assumes "0 < c" "c < 32"
  shows "rotate u c = word_rotl (nat c) u"
proof -
  have "nat (32 - c) = 32 - nat c" using assms by simp
  moreover have "0 < nat c" "nat c < 32" using assms by simp_all
  ultimately show ?thesis
    by (simp add: rotate_def rotl_bits)
qed

text \<open>
  Claim C10. Every statement of the two loop bodies (lines 64--95 and 140--171) calls
  \<^verbatim>\<open>rotate\<close> with an amount \<open>c\<close> from 7, 9, 13, 18. For such an amount both \<open>c\<close> and
  \<open>32 - c\<close> lie strictly between 0 and 32, so both shifts are defined in C, and the
  result is the left rotation of the word by \<open>c\<close> bits, for every word.
\<close>

theorem rotate_amounts_defined:
  "\<forall>s \<in> set hsalsa20_body \<union> set salsa20_body.
     (case s of (t, a, b, c) \<Rightarrow>
        c \<in> {7, 9, 13, 18}
      \<and> 0 < c \<and> c < 32 \<and> 0 < 32 - c \<and> 32 - c < 32
      \<and> shift_defined c \<and> shift_defined (32 - c)
      \<and> (\<forall>u. rotate u c = word_rotl (nat c) u))"
proof -
  have a: "\<forall>s \<in> set hsalsa20_body \<union> set salsa20_body. snd (snd (snd s)) \<in> {7, 9, 13, 18}"
    by (simp add: hsalsa20_body_def salsa20_body_def)
  have b: "c \<in> {7, 9, 13, 18} \<Longrightarrow> 0 < c \<and> c < 32" for c :: int
    by auto
  show ?thesis
  proof
    fix s assume s: "s \<in> set hsalsa20_body \<union> set salsa20_body"
    obtain t a' b' c where sc: "s = (t, a', b', c)" by (cases s) auto
    from bspec [OF a s] sc have c: "c \<in> {7, 9, 13, 18}" by simp
    with b have "0 < c" "c < 32" by blast+
    with c show "case s of (t, a, b, c) \<Rightarrow>
        c \<in> {7, 9, 13, 18}
      \<and> 0 < c \<and> c < 32 \<and> 0 < 32 - c \<and> 32 - c < 32
      \<and> shift_defined c \<and> shift_defined (32 - c)
      \<and> (\<forall>u. rotate u c = word_rotl (nat c) u)"
      unfolding sc by (simp add: shift_defined_def rotate_is_rotl)
  qed
qed

theorem rotate_amounts_defined_witness:
  "(4, 0, 12, 7) \<in> set hsalsa20_body \<union> set salsa20_body
   \<and> shift_defined 7 \<and> shift_defined (32 - 7) \<and> (\<forall>u. rotate u 7 = word_rotl (nat 7) u)"
proof -
  have h: "(4, 0, 12, 7) \<in> set hsalsa20_body \<union> set salsa20_body"
    by (simp add: hsalsa20_body_def)
  from rotate_amounts_defined [rule_format, OF h] h show ?thesis by simp
qed

subsection \<open>HSalsa20\<close>

text \<open>
  Claim C9. The 32 bytes that HSalsa20 returns are the words of the state after the
  rounds at the indices 0, 5, 10, 15, 6, 7, 8, 9, in this order, each as four
  little-endian bytes; the words are those that the loop leaves, with nothing added.
\<close>

theorem hsalsa20_output_words:
  "crypto_core_hsalsa20 inp k c =
     concat (map (\<lambda>i. le32_bytes (rounds hsalsa20_body ROUNDS (load_words inp k c) ! i))
                 [0, 5, 10, 15, 6, 7, 8, 9])"
  by (simp add: crypto_core_hsalsa20_def Let_def store_littleendian_le32)

subsection \<open>The length check of secretbox\<close>

text \<open>
  Claim C3. With an input of 31 bytes or fewer, seal and open both fail with
  \<open>InvalidInputLength\<close> (the C return value \<open>-1\<close>), the output buffer keeps the contents
  it had, and the call has no event: no permutation and no MAC call was made.
\<close>

theorem short_input_rejected_first:
  "length x \<le> 31 \<Longrightarrow>
     xsalsa20poly1305_secretbox P buf x n k = (Some InvalidInputLength, buf, [])
   \<and> xsalsa20poly1305_secretbox_open P buf x n k = (Some InvalidInputLength, buf, [])
   \<and> return_value (Some InvalidInputLength) = - 1"
  by (simp add: xsalsa20poly1305_secretbox_def xsalsa20poly1305_secretbox_open_def
      return_value_def)

theorem short_input_rejected_first_witness:
  "length (replicate 31 (5 :: byte)) \<le> 31
   \<and> xsalsa20poly1305_secretbox length_mac (replicate 31 9) (replicate 31 5) nonce0 key0
       = (Some InvalidInputLength, replicate 31 9, [])
   \<and> xsalsa20poly1305_secretbox_open length_mac (replicate 31 9) (replicate 31 5) nonce0 key0
       = (Some InvalidInputLength, replicate 31 9, [])"
proof -
  have h: "length (replicate 31 (5 :: byte)) \<le> 31" by simp
  from short_input_rejected_first [OF h, of length_mac "replicate 31 9" nonce0 key0] h
  show ?thesis by blast
qed

subsection \<open>The Salsa20 core\<close>

lemma length_quarter [simp]: "length (quarter s x) = length x"
  by (cases s) (simp add: quarter_def)

lemma length_fold_quarter [simp]: "length (fold quarter body x) = length x"
  by (induction body arbitrary: x) simp_all

lemma length_rounds [simp]: "length (rounds body i x) = length x"
  by (induction body i x rule: rounds.induct) (simp add: rounds.simps)

lemma length_load_words [simp]: "length (load_words inp k c) = 16"
  by (simp add: load_words_def)

lemma length_salsa20_words [simp]: "length (salsa20_words inp k c) = 16"
  by (simp add: salsa20_words_def Let_def)

lemma upt_16: "[0..<16] = [0, 1, 2, 3, 4, 5, 6, 7, 8, 9, 10, 11, 12, 13, 14, 15]"
  by (simp add: numeral_eq_Suc)

lemma map_nth_upt: "map (\<lambda>i. f (xs ! i)) [0..<length xs] = map f xs"
  by (rule nth_equalityI) simp_all

lemma map_nth_take: "n \<le> length xs \<Longrightarrow> map (\<lambda>i. xs ! i) [0..<n] = take n xs"
  by (rule nth_equalityI) simp_all

lemma salsa20_sequential:
  "crypto_core_salsa20 inp k c = concat (map le32_bytes (salsa20_words inp k c))"
proof -
  have "concat (map le32_bytes (salsa20_words inp k c))
      = concat (map (\<lambda>i. le32_bytes (salsa20_words inp k c ! i)) [0..<16])"
    using map_nth_upt [of le32_bytes "salsa20_words inp k c"] by simp
  also have "\<dots> = crypto_core_salsa20 inp k c"
    unfolding upt_16 by (simp add: crypto_core_salsa20_def Let_def store_littleendian_le32)
  finally show ?thesis by simp
qed

lemma load_words_layout:
  assumes "length k = 32" "length inp = 16" "length c = 16"
  shows "load_words inp k c =
     words_of (take 4 c @ take 16 k @ take 4 (drop 4 c) @ inp @ take 4 (drop 8 c)
               @ drop 16 k @ drop 12 c)"
  using assms
  unfolding words_of_def load_words_def
  apply (simp add: upt_16)
  apply (simp add: load_littleendian_def nth_append)
  done

text \<open>
  Claim C4, as the specification states it, fails: the feedback variant does not write
  its words in a non-sequential order. At the input below the 64 output bytes are the
  sixteen words after the feedback addition, serialised one after the other in the order
  of their indices 0, 1, .., 15.
\<close>

theorem salsa20_output_order_counterexample:
  "crypto_core_salsa20 (replicate 16 0) key0 sigma
     = concat (map le32_bytes (salsa20_words (replicate 16 0) key0 sigma))"
  by (rule salsa20_sequential)

text \<open>
  Claim C4, amended. The sixteen words are loaded, in the order of their indices, from
  constant[0..4), key[0..16), constant[4..8), input[0..16), constant[8..12), key[16..32),
  constant[12..16); after the rounds the loaded words are added back; and the sixteen
  sums are written as little-endian bytes in the same order, word \<open>i\<close> at the bytes
  \<open>4 i\<close> to \<open>4 i + 3\<close> of the output.
\<close>

theorem salsa20_load_feedback_store:
  assumes "length k = 32" and "length inp = 16" and "length c = 16"
  shows "load_words inp k c =
           words_of (take 4 c @ take 16 k @ take 4 (drop 4 c) @ inp @ take 4 (drop 8 c)
                     @ drop 16 k @ drop 12 c)
       \<and> salsa20_words inp k c =
           map2 (+) (rounds salsa20_body ROUNDS (load_words inp k c)) (load_words inp k c)
       \<and> crypto_core_salsa20 inp k c =
           concat (map (\<lambda>i. le32_bytes (salsa20_words inp k c ! i)) [0..<16])"
proof -
  have "map (\<lambda>i. le32_bytes (salsa20_words inp k c ! i)) [0..<16]
      = map le32_bytes (salsa20_words inp k c)"
    using map_nth_upt [of le32_bytes "salsa20_words inp k c"] by simp
  then show ?thesis
    using assms by (simp add: load_words_layout salsa20_sequential salsa20_words_def Let_def)
qed

theorem salsa20_load_feedback_store_witness:
  "length key0 = 32 \<and> length (replicate 16 (0 :: byte)) = 16 \<and> length sigma = 16
   \<and> crypto_core_salsa20 (replicate 16 0) key0 sigma =
       concat (map (\<lambda>i. le32_bytes (salsa20_words (replicate 16 0) key0 sigma ! i)) [0..<16])"
proof -
  have h: "length key0 = 32" "length (replicate 16 (0 :: byte)) = 16" "length sigma = 16"
    by (simp_all add: key0_def sigma_def)
  from salsa20_load_feedback_store [OF h] h show ?thesis by blast
qed

subsection \<open>Secretbox: the zero prefixes and the failed verification\<close>

text \<open>
  Claim C5. When seal succeeds, the first 16 bytes of the ciphertext buffer are zero;
  when open succeeds, the first 32 bytes of the plaintext buffer are zero.
\<close>

theorem zero_prefixes:
  "(fst (xsalsa20poly1305_secretbox P c m n k) = None \<longrightarrow>
      take 16 (fst (snd (xsalsa20poly1305_secretbox P c m n k))) = replicate 16 0)
   \<and> (fst (xsalsa20poly1305_secretbox_open P p c' n' k') = None \<longrightarrow>
      take 32 (fst (snd (xsalsa20poly1305_secretbox_open P p c' n' k'))) = replicate 32 0)"
  by (simp add: xsalsa20poly1305_secretbox_def xsalsa20poly1305_secretbox_open_def Let_def
      store_at_def split: if_splits)

theorem zero_prefixes_witness:
  "fst (xsalsa20poly1305_secretbox length_mac (replicate 40 3) (replicate 40 0) nonce0 key0) = None
   \<and> take 16 (fst (snd (xsalsa20poly1305_secretbox length_mac (replicate 40 3) (replicate 40 0)
         nonce0 key0))) = replicate 16 0
   \<and> fst (xsalsa20poly1305_secretbox_open length_mac (replicate 32 3) (replicate 32 0)
         nonce0 key0) = None
   \<and> take 32 (fst (snd (xsalsa20poly1305_secretbox_open length_mac (replicate 32 3)
         (replicate 32 0) nonce0 key0))) = replicate 32 0"
proof -
  have s: "fst (xsalsa20poly1305_secretbox length_mac (replicate 40 3) (replicate 40 0)
      nonce0 key0) = None"
    by (simp add: xsalsa20poly1305_secretbox_def Let_def)
  have t: "take 16 (drop 16 (replicate 32 (0 :: byte))) = replicate 16 0"
    by simp
  have u: "auth_verify length_mac (replicate 16 0) [] kk = 0" for kk
    by (simp add: length_mac_def)
  have v: "fst (xsalsa20poly1305_secretbox_open length_mac (replicate 32 3) (replicate 32 0)
      nonce0 key0) = None"
    by (simp add: xsalsa20poly1305_secretbox_open_def Let_def t u)
  from zero_prefixes [of length_mac "replicate 40 3" "replicate 40 0" nonce0 key0
      "replicate 32 3" "replicate 32 0" nonce0 key0] s v
  show ?thesis by blast
qed

lemma xsalsa20_stream_32:
  "xsalsa20_stream 32 n k =
     (take 32 (crypto_core_salsa20 (block_input (drop 16 n)) (crypto_core_hsalsa20 n k sigma) sigma),
      [Core_hsalsa20, Core_salsa20, Dead_local (crypto_core_hsalsa20 n k sigma)])"
  by (simp add: xsalsa20_stream_def crypto_stream_salsa20_def salsa20_blocks.simps [of _ 32]
      Let_def map_nth_take)

text \<open>
  Claim C2. For a ciphertext of at least 32 bytes, when the verification of the tag
  \<open>c[16..32)\<close> over \<open>c[32..)\<close> under the first 32 bytes of the XSalsa20 stream fails,
  open returns \<open>AuthenticationFailure\<close> (the C return value \<open>-1\<close>) and the plaintext
  buffer keeps the contents it had. The events of the call are those of the generation
  of the 32-byte MAC key (one HSalsa20 call and one Salsa20 block) and the verification:
  no Salsa20 block is computed for the ciphertext, whatever its length.
\<close>

theorem failed_verification_writes_nothing:
  assumes "32 \<le> length c"
    and "auth_verify P (take 16 (drop 16 c)) (drop 32 c) (fst (xsalsa20_stream 32 n k)) \<noteq> 0"
  shows "xsalsa20poly1305_secretbox_open P m c n k =
           (Some AuthenticationFailure, m,
            [Core_hsalsa20, Core_salsa20, Dead_local (crypto_core_hsalsa20 n k sigma),
             Mac_verify, Dead_local (fst (xsalsa20_stream 32 n k))])
       \<and> return_value (Some AuthenticationFailure) = - 1"
  using assms
  by (simp add: xsalsa20poly1305_secretbox_open_def Let_def xsalsa20_stream_32 return_value_def)

theorem failed_verification_writes_nothing_witness:
  "32 \<le> length (replicate 100 (7 :: byte))
   \<and> auth_verify rejecting_mac (take 16 (drop 16 (replicate 100 7))) (drop 32 (replicate 100 7))
        (fst (xsalsa20_stream 32 nonce0 key0)) \<noteq> 0
   \<and> xsalsa20poly1305_secretbox_open rejecting_mac (replicate 100 9) (replicate 100 7) nonce0 key0 =
        (Some AuthenticationFailure, replicate 100 9,
         [Core_hsalsa20, Core_salsa20, Dead_local (crypto_core_hsalsa20 nonce0 key0 sigma),
          Mac_verify, Dead_local (fst (xsalsa20_stream 32 nonce0 key0))])"
proof -
  have h1: "32 \<le> length (replicate 100 (7 :: byte))" by simp
  have h2: "auth_verify rejecting_mac (take 16 (drop 16 (replicate 100 7)))
      (drop 32 (replicate 100 7)) (fst (xsalsa20_stream 32 nonce0 key0)) \<noteq> 0"
    by (simp add: rejecting_mac_def)
  from failed_verification_writes_nothing [OF h1 h2, of "replicate 100 9"] h1 h2
  show ?thesis by blast
qed

subsection \<open>The block counter\<close>

lemma length_le_bytes [simp]: "length (le_bytes len v) = len"
  by (induction len arbitrary: v) simp_all

lemma carry_loop_add_carry:
  "length inp = 16 \<Longrightarrow> i \<le> 16 \<Longrightarrow> carry_loop i u inp = take i inp @ add_carry u (drop i inp)"
proof (induction i u inp rule: carry_loop.induct)
  case (1 i u inp)
  show ?case
  proof (cases "i < 16")
    case True
    let ?u1 = "u + ucast (inp ! i)"
    have d: "drop i inp = inp ! i # drop (Suc i) inp"
      using True 1(2) by (simp add: Cons_nth_drop_Suc)
    have "carry_loop i u inp = carry_loop (i + 1) (drop_bit 8 ?u1) (inp[i := ucast ?u1])"
      using True by (subst carry_loop.simps) (simp add: Let_def)
    also have "\<dots> = take (i + 1) (inp[i := ucast ?u1])
        @ add_carry (drop_bit 8 ?u1) (drop (i + 1) (inp[i := ucast ?u1]))"
      using True 1(2) by (intro 1(1)) simp_all
    also have "\<dots> = take i inp @ add_carry u (inp ! i # drop (Suc i) inp)"
      using True 1(2) by (simp add: take_Suc_conv_app_nth)
    also have "\<dots> = take i inp @ add_carry u (drop i inp)"
      by (simp only: d)
    finally show ?thesis .
  next
    case False
    with 1 show ?thesis by (subst carry_loop.simps) simp
  qed
qed

lemma unat_byte_less: "unat (b :: byte) < 256"
  using unsigned_less [of b, where 'a = nat] by simp

lemma unat_ucast_byte: "unat (ucast (b :: byte) :: uint32) = unat b"
proof -
  have "unat b < 2 ^ 32" using unat_byte_less [of b] by simp
  then show ?thesis
    by (simp add: unsigned_ucast_eq take_bit_nat_eq_self)
qed

lemma unat_carry_sum:
  fixes u :: uint32 and b :: byte
  assumes "unat u \<le> 1"
  shows "unat (u + ucast b) = unat u + unat b"
proof -
  have "unat u + unat b < 2 ^ 32"
    using assms unat_byte_less [of b] by simp
  then show ?thesis
    by (simp add: unat_word_ariths unat_ucast_byte)
qed

lemma byte_of_nat_mod: "(of_nat (a mod 256) :: byte) = of_nat a"
  by (simp add: word_of_nat_eq_iff take_bit_eq_mod)

lemma unat_drop_bit_8: "unat (drop_bit 8 (x :: uint32)) = unat x div 256"
  by (subst unat_drop_bit_eq) (simp add: drop_bit_eq_div)

lemma add_carry_le_bytes:
  "unat u \<le> 1 \<Longrightarrow> add_carry u (le_bytes len v) = le_bytes len (v + unat u)"
proof (induction len arbitrary: u v)
  case 0
  show ?case by simp
next
  case (Suc len)
  let ?b = "of_nat (v mod 256) :: byte"
  let ?s = "u + ucast ?b"
  have ub: "unat ?b = v mod 256"
    by (simp add: unat_of_nat)
  have s: "unat ?s = unat u + v mod 256"
    using Suc.prems by (simp only: unat_carry_sum ub)
  have "(ucast ?s :: byte) = of_nat (unat ?s)"
    by simp
  also have "\<dots> = of_nat (unat u) + of_nat (v mod 256)"
    by (simp only: s of_nat_add)
  also have "\<dots> = of_nat ((v + unat u) mod 256)"
    by (simp only: byte_of_nat_mod of_nat_add add.commute)
  finally have hd: "(ucast ?s :: byte) = of_nat ((v + unat u) mod 256)" .
  have c: "unat (drop_bit 8 ?s) = (unat u + v mod 256) div 256"
    by (simp only: unat_drop_bit_8 s)
  have c1: "unat (drop_bit 8 ?s) \<le> 1"
    unfolding c using Suc.prems by simp
  have dv: "(v + unat u) div 256 = v div 256 + unat (drop_bit 8 ?s)"
    unfolding c using Suc.prems by (simp add: div_add1_eq [of v "unat u" 256] add.commute)
  have "add_carry u (le_bytes (Suc len) v)
      = ucast ?s # add_carry (drop_bit 8 ?s) (le_bytes len (v div 256))"
    by simp
  also have "\<dots> = ucast ?s # le_bytes len (v div 256 + unat (drop_bit 8 ?s))"
    by (simp only: Suc.IH [OF c1])
  also have "\<dots> = le_bytes (Suc len) (v + unat u)"
    by (simp only: hd dv le_bytes.simps)
  finally show ?case .
qed

lemma next_block_input:
  assumes "length n = 8"
  shows "carry_loop 8 1 (n @ le_bytes 8 j) = n @ le_bytes 8 (j + 1)"
proof -
  have "carry_loop 8 1 (n @ le_bytes 8 j)
      = take 8 (n @ le_bytes 8 j) @ add_carry 1 (drop 8 (n @ le_bytes 8 j))"
    using assms by (intro carry_loop_add_carry) simp_all
  also have "\<dots> = n @ add_carry 1 (le_bytes 8 j)"
    using assms by simp
  also have "\<dots> = n @ le_bytes 8 (j + 1)"
    using add_carry_le_bytes [of 1 8 j] by simp
  finally show ?thesis .
qed

lemma le_bytes_0: "le_bytes len 0 = replicate len 0"
  by (induction len) simp_all

lemma block_input_le_bytes: "length n = 8 \<Longrightarrow> block_input n = n @ le_bytes 8 0"
  by (simp add: block_input_def le_bytes_0 map_nth_take)

lemma length_keystream_block [simp]: "length (keystream_block k n j) = 64"
  by (simp add: keystream_block_def)

lemma length_concat_blocks [simp]:
  "length (concat (map (keystream_block k n) js)) = 64 * length js"
  by (induction js) simp_all

lemma nblocks_full: "64 \<le> clen \<Longrightarrow> (clen + 63) div 64 = Suc ((clen - 64 + 63) div 64)"
  by (simp add: le_div_geq)

lemma nblocks_part: "clen < 64 \<Longrightarrow> clen \<noteq> 0 \<Longrightarrow> (clen + 63) div 64 = Suc 0"
  by (simp add: div_nat_eqI)

lemma salsa20_blocks_keystream:
  assumes n: "length n = 8"
  shows "salsa20_blocks (n @ le_bytes 8 j) clen k =
           (take clen (concat (map (keystream_block k n) [j..<j + (clen + 63) div 64])),
            replicate ((clen + 63) div 64) Core_salsa20)"
proof (induction clen arbitrary: j rule: less_induct)
  case (less clen)
  consider (full) "64 \<le> clen" | (part) "clen < 64" "clen \<noteq> 0" | (none) "clen = 0"
    by linarith
  then show ?case
  proof cases
    case full
    define q where "q = (clen - 64 + 63) div 64"
    define r where "r = salsa20_blocks (n @ le_bytes 8 (j + 1)) (clen - 64) k"
    have q: "(clen + 63) div 64 = Suc q"
      using full unfolding q_def by (rule nblocks_full)
    have ih: "r = (take (clen - 64) (concat (map (keystream_block k n) [j + 1..<j + 1 + q])),
         replicate q Core_salsa20)"
      unfolding q_def r_def using full by (intro less.IH) simp
    have u: "[j..<j + Suc q] = j # [j + 1..<j + 1 + q]"
      using upt_conv_Cons [of j "j + Suc q"] by simp
    have "salsa20_blocks (n @ le_bytes 8 j) clen k
        = (keystream_block k n j @ fst r, Core_salsa20 # snd r)"
      unfolding r_def using full
      by (subst salsa20_blocks.simps)
         (simp only: Let_def next_block_input [OF n] keystream_block_def if_True)
    also have "\<dots> = (keystream_block k n j
          @ take (clen - 64) (concat (map (keystream_block k n) [j + 1..<j + 1 + q])),
        replicate (Suc q) Core_salsa20)"
      by (simp only: ih fst_conv snd_conv replicate_Suc)
    also have "keystream_block k n j
          @ take (clen - 64) (concat (map (keystream_block k n) [j + 1..<j + 1 + q]))
        = take clen (concat (map (keystream_block k n) (j # [j + 1..<j + 1 + q])))"
      using full by simp
    finally show ?thesis
      by (simp only: q u)
  next
    case part
    have q: "(clen + 63) div 64 = Suc 0"
      using part by (rule nblocks_part)
    have "salsa20_blocks (n @ le_bytes 8 j) clen k
        = (take clen (keystream_block k n j), [Core_salsa20])"
      using part
      by (subst salsa20_blocks.simps) (simp add: map_nth_take keystream_block_def)
    then show ?thesis
      by (simp add: q)
  next
    case none
    then show ?thesis
      by (subst salsa20_blocks.simps) simp
  qed
qed

lemma crypto_stream_salsa20_keystream:
  assumes "length n = 8"
  shows "crypto_stream_salsa20 clen n k =
           (keystream clen n k, replicate ((clen + 63) div 64) Core_salsa20)"
proof (cases "clen = 0")
  case True
  then show ?thesis by (simp add: crypto_stream_salsa20_def keystream_def)
next
  case False
  then show ?thesis
    using salsa20_blocks_keystream [OF assms, of 0 clen k]
    by (simp add: crypto_stream_salsa20_def keystream_def block_input_le_bytes [OF assms])
qed

lemma map_nth2:
  "n \<le> length xs \<Longrightarrow> n \<le> length ys \<Longrightarrow>
     map (\<lambda>i. f (xs ! i) (ys ! i)) [0..<n] = map2 f (take n xs) (take n ys)"
  by (rule nth_equalityI) simp_all

lemma length_salsa20_blocks [simp]: "length (fst (salsa20_blocks inp clen k)) = clen"
proof (induction inp clen k rule: salsa20_blocks.induct)
  case (1 inp clen k)
  show ?case
  proof (cases "64 \<le> clen")
    case True
    with 1 show ?thesis
      by (subst salsa20_blocks.simps) (simp add: Let_def)
  next
    case False
    then show ?thesis
      by (subst salsa20_blocks.simps) simp
  qed
qed

lemma salsa20_xor_blocks_eq:
  "salsa20_xor_blocks inp m k =
     (map2 (XOR) m (fst (salsa20_blocks inp (length m) k)),
      snd (salsa20_blocks inp (length m) k))"
proof (induction inp m k rule: salsa20_xor_blocks.induct)
  case (1 inp m k)
  let ?block = "crypto_core_salsa20 inp k sigma"
  consider (full) "64 \<le> length m" | (part) "length m < 64" "length m \<noteq> 0" | (none) "length m = 0"
    by linarith
  then show ?case
  proof cases
    case full
    have ih: "salsa20_xor_blocks (carry_loop 8 1 inp) (drop 64 m) k =
       (map2 (XOR) (drop 64 m) (fst (salsa20_blocks (carry_loop 8 1 inp) (length m - 64) k)),
        snd (salsa20_blocks (carry_loop 8 1 inp) (length m - 64) k))"
      using 1 [OF full refl] by simp
    have z: "map2 (XOR) m (?block @ r) = map2 (XOR) (take 64 m) ?block @ map2 (XOR) (drop 64 m) r" for r
    proof -
      have "map2 (XOR) (take 64 m @ drop 64 m) (?block @ r)
          = map2 (XOR) (take 64 m) ?block @ map2 (XOR) (drop 64 m) r"
        using full by (subst zip_append) simp_all
      then show ?thesis by simp
    qed
    have h: "map (\<lambda>i. m ! i XOR ?block ! i) [0..<64] = map2 (XOR) (take 64 m) ?block"
      using full map_nth2 [of 64 m ?block "(XOR)"] by simp
    show ?thesis
      using full
      by (subst salsa20_xor_blocks.simps, subst (1 2) salsa20_blocks.simps)
         (simp add: Let_def ih z h)
  next
    case part
    have h: "map (\<lambda>i. m ! i XOR ?block ! i) [0..<length m]
        = map2 (XOR) m (take (length m) ?block)"
      using part map_nth2 [of "length m" m ?block "(XOR)"] by simp
    show ?thesis
      using part
      by (subst salsa20_xor_blocks.simps, subst (1 2) salsa20_blocks.simps)
         (simp add: Let_def h map_nth_take)
  next
    case none
    then show ?thesis
      by (subst salsa20_xor_blocks.simps, subst (1 2) salsa20_blocks.simps) simp
  qed
qed

lemma crypto_stream_salsa20_xor_eq:
  "crypto_stream_salsa20_xor m n k =
     (map2 (XOR) m (fst (crypto_stream_salsa20 (length m) n k)),
      snd (crypto_stream_salsa20 (length m) n k))"
  by (simp add: crypto_stream_salsa20_xor_def crypto_stream_salsa20_def salsa20_xor_blocks_eq)

lemma length_keystream [simp]: "length (keystream len n k) = len"
proof -
  have "len \<le> 64 * ((len + 63) div 64)"
    by (simp add: algebra_simps)
  then show ?thesis
    by (simp add: keystream_def)
qed

lemma keystream_prefix:
  assumes "a \<le> b"
  shows "take a (keystream b n k) = keystream a n k"
proof -
  define p where "p = (a + 63) div 64"
  define q where "q = (b + 63) div 64"
  have pq: "p \<le> q"
    unfolding p_def q_def using assms by (simp add: div_le_mono)
  have ap: "a \<le> 64 * p"
    unfolding p_def by (simp add: algebra_simps)
  have "[0..<q] = [0..<p] @ [p..<q]"
    using pq by (metis le_add_diff_inverse upt_add_eq_append zero_le)
  then have "take a (concat (map (keystream_block k n) [0..<q]))
      = take a (concat (map (keystream_block k n) [0..<p]))"
    using ap by simp
  then show ?thesis
    using assms by (simp add: keystream_def p_def q_def min_absorb2)
qed

lemma xor_zero: "length xs = n \<Longrightarrow> map2 (XOR) (replicate n (0 :: byte)) xs = xs"
  by (rule nth_equalityI) simp_all

lemma xor_cancel:
  fixes xs ys :: "byte list"
  shows "length xs = length ys \<Longrightarrow> map2 (XOR) (map2 (XOR) xs ys) ys = xs"
  by (rule nth_equalityI) (simp_all add: xor.assoc)

lemma xsalsa20_stream_xor_fst:
  "length n = 24 \<Longrightarrow>
     fst (xsalsa20_stream_xor m n k) =
       map2 (XOR) m (keystream (length m) (drop 16 n) (crypto_core_hsalsa20 n k sigma))"
  by (simp add: xsalsa20_stream_xor_def Let_def crypto_stream_salsa20_xor_eq
      crypto_stream_salsa20_keystream)

lemma xsalsa20_stream_fst:
  "length n = 24 \<Longrightarrow>
     fst (xsalsa20_stream clen n k) = keystream clen (drop 16 n) (crypto_core_hsalsa20 n k sigma)"
  by (simp add: xsalsa20_stream_def Let_def crypto_stream_salsa20_keystream)

subsection \<open>The Salsa20 stream\<close>

text \<open>
  Claim C7. With an 8-byte nonce, the block input starts as the nonce followed by the
  8-byte little-endian counter 0; the loop of lines 230--235 turns the counter \<open>j\<close> into
  \<open>j + 1\<close>, carrying across its 8 bytes; the output is the keystream of the
  specification, that is block \<open>j\<close> is the feedback core of nonce and counter \<open>j\<close> under
  the key and \<open>sigma\<close>, and the last block is cut to the bytes still needed; the core
  is called once for each block; the constant is "expand 32-byte k"; and a request for
  zero bytes returns no byte and calls no permutation.
\<close>

theorem salsa20_stream_counter_blocks:
  assumes "length n = 8"
  shows "block_input n = n @ le_bytes 8 0
       \<and> carry_loop 8 1 (n @ le_bytes 8 j) = n @ le_bytes 8 (j + 1)
       \<and> crypto_stream_salsa20 clen n k =
           (keystream clen n k, replicate ((clen + 63) div 64) Core_salsa20)
       \<and> crypto_stream_salsa20 0 n k = ([], [])
       \<and> sigma = map of_char ''expand 32-byte k''"
proof (intro conjI)
  show "block_input n = n @ le_bytes 8 0"
    using assms by (rule block_input_le_bytes)
  show "carry_loop 8 1 (n @ le_bytes 8 j) = n @ le_bytes 8 (j + 1)"
    using assms by (rule next_block_input)
  show "crypto_stream_salsa20 clen n k =
      (keystream clen n k, replicate ((clen + 63) div 64) Core_salsa20)"
    using assms by (rule crypto_stream_salsa20_keystream)
  show "crypto_stream_salsa20 0 n k = ([], [])"
    by (simp add: crypto_stream_salsa20_def)
  show "sigma = map of_char ''expand 32-byte k''"
    by (rule sigma_def)
qed

theorem salsa20_stream_counter_blocks_witness:
  "length (replicate 8 (7 :: byte)) = 8
   \<and> carry_loop 8 1 (replicate 8 7 @ le_bytes 8 255) = replicate 8 7 @ le_bytes 8 (255 + 1)
   \<and> crypto_stream_salsa20 130 (replicate 8 7) key0 =
       (keystream 130 (replicate 8 7) key0, replicate ((130 + 63) div 64) Core_salsa20)"
proof -
  have h: "length (replicate 8 (7 :: byte)) = 8" by simp
  from salsa20_stream_counter_blocks [OF h, of 255 130 key0] h show ?thesis by blast
qed

text \<open>
  Claim C6. For a 32-byte key, an 8-byte nonce and any message, the output of the xor
  operation has the length of the message, the generate operation with the same key and
  nonce and that length returns as many bytes, and byte \<open>i\<close> of the output is byte \<open>i\<close>
  of the message XOR byte \<open>i\<close> of the generated keystream.
\<close>

theorem salsa20_xor_is_message_xor_keystream:
  assumes "length k = 32" and "length n = 8"
  shows "length (fst (crypto_stream_salsa20_xor m n k)) = length m
       \<and> length (fst (crypto_stream_salsa20 (length m) n k)) = length m
       \<and> (\<forall>i < length m.
             fst (crypto_stream_salsa20_xor m n k) ! i
               = m ! i XOR fst (crypto_stream_salsa20 (length m) n k) ! i)"
proof -
  have l: "length (fst (crypto_stream_salsa20 (length m) n k)) = length m"
    by (simp add: crypto_stream_salsa20_def)
  show ?thesis
    by (simp add: crypto_stream_salsa20_xor_eq l)
qed

theorem salsa20_xor_is_message_xor_keystream_witness:
  "length key0 = 32 \<and> length (replicate 8 (7 :: byte)) = 8
   \<and> (69 :: nat) < length (replicate 70 (5 :: byte))
   \<and> length (fst (crypto_stream_salsa20_xor (replicate 70 5) (replicate 8 7) key0)) = 70
   \<and> fst (crypto_stream_salsa20_xor (replicate 70 5) (replicate 8 7) key0) ! 69
       = replicate 70 5 ! 69
         XOR fst (crypto_stream_salsa20 (length (replicate 70 (5 :: byte))) (replicate 8 7) key0) ! 69"
proof -
  have h: "length key0 = 32" "length (replicate 8 (7 :: byte)) = 8"
    by (simp_all add: key0_def)
  have i: "(69 :: nat) < length (replicate 70 (5 :: byte))" by simp
  from salsa20_xor_is_message_xor_keystream [OF h, of "replicate 70 5"]
  have "length (fst (crypto_stream_salsa20_xor (replicate 70 5) (replicate 8 7) key0))
          = length (replicate 70 (5 :: byte))"
    and "\<forall>i < length (replicate 70 (5 :: byte)).
          fst (crypto_stream_salsa20_xor (replicate 70 5) (replicate 8 7) key0) ! i
            = replicate 70 5 ! i
              XOR fst (crypto_stream_salsa20 (length (replicate 70 (5 :: byte)))
                    (replicate 8 7) key0) ! i"
    by blast+
  with h i show ?thesis by (simp del: nth_replicate)
qed

subsection \<open>The round trip\<close>

text \<open>
  Claim C1. For a 32-byte key, a 24-byte nonce and a message of at least 32 bytes whose
  first 32 bytes are zero, seal succeeds, open of the sealed buffer with the same nonce
  and key succeeds, and the plaintext buffer then holds the message. The output buffers
  have the length of the message, and the MAC meets its contract (a 16-byte tag that
  verification accepts).
\<close>

theorem seal_open_roundtrip:
  assumes P: "poly1305_contract P"
    and k: "length k = 32" and n: "length n = 24"
    and m: "32 \<le> length m" and z: "take 32 m = replicate 32 0"
    and c0: "length c0 = length m" and p0: "length p0 = length m"
  shows "fst (xsalsa20poly1305_secretbox P c0 m n k) = None
       \<and> fst (xsalsa20poly1305_secretbox_open P p0
              (fst (snd (xsalsa20poly1305_secretbox P c0 m n k))) n k) = None
       \<and> fst (snd (xsalsa20poly1305_secretbox_open P p0
              (fst (snd (xsalsa20poly1305_secretbox P c0 m n k))) n k)) = m"
proof -
  define ks where "ks = keystream (length m) (drop 16 n) (crypto_core_hsalsa20 n k sigma)"
  define key where "key = keystream 32 (drop 16 n) (crypto_core_hsalsa20 n k sigma)"
  define s where "s = map2 (XOR) m ks"
  define tag where "tag = auth P (drop 32 s) key"
  define c where "c = replicate 16 0 @ tag @ drop 32 s"
  have lks: "length ks = length m" by (simp add: ks_def)
  have ls: "length s = length m" by (simp add: s_def lks)
  have ltag: "length tag = 16"
    using P by (simp add: tag_def poly1305_contract_def)
  have lkey: "length key = 32" by (simp add: key_def)
  have key_ks: "take 32 ks = key"
    unfolding ks_def key_def using m by (rule keystream_prefix)
  have "take 32 s = map2 (XOR) (take 32 m) (take 32 ks)"
    by (simp add: s_def take_zip take_map)
  also have "\<dots> = key"
    unfolding z key_ks using lkey by (rule xor_zero)
  finally have ts: "take 32 s = key" .
  have t16: "take 16 (take 32 s) = take 16 s" by simp
  have seal: "xsalsa20poly1305_secretbox P c0 m n k
      = (None, c, snd (xsalsa20_stream_xor m n k) @ [Mac_auth])"
    using m c0 ls ltag
    by (simp add: xsalsa20poly1305_secretbox_def Let_def xsalsa20_stream_xor_fst [OF n]
        ks_def [symmetric] s_def [symmetric] store_at_def ts tag_def [symmetric] c_def)
  have lc: "length c = length m"
    using m ls ltag by (simp add: c_def)
  have v: "auth_verify P (take 16 (drop 16 c)) (drop 32 c) key = 0"
    using P ltag by (simp add: c_def tag_def poly1305_contract_def)
  have d: "drop 32 (map2 (XOR) c ks) = drop 32 m"
  proof -
    have "drop 32 (map2 (XOR) c ks) = map2 (XOR) (drop 32 c) (drop 32 ks)"
      by (simp add: drop_zip drop_map)
    also have "\<dots> = map2 (XOR) (map2 (XOR) (drop 32 m) (drop 32 ks)) (drop 32 ks)"
      using ltag by (simp add: c_def s_def drop_zip drop_map)
    also have "\<dots> = drop 32 m"
      by (rule xor_cancel) (simp add: lks)
    finally show ?thesis .
  qed
  have mm: "replicate 32 0 @ drop 32 m = m"
    using z append_take_drop_id [of 32 m] by simp
  have opn: "xsalsa20poly1305_secretbox_open P p0 c n k
      = (None, m, snd (xsalsa20_stream 32 n k) @ [Mac_verify] @ snd (xsalsa20_stream_xor c n k)
           @ [Dead_local key])"
    using m lc p0 v lks
    by (simp add: xsalsa20poly1305_secretbox_open_def Let_def xsalsa20_stream_fst [OF n]
        xsalsa20_stream_xor_fst [OF n] key_def [symmetric] ks_def [symmetric] store_at_def d mm)
  show ?thesis
    by (simp add: seal opn)
qed

theorem seal_open_roundtrip_witness:
  "poly1305_contract length_mac \<and> length key0 = 32 \<and> length nonce0 = 24
   \<and> 32 \<le> length (replicate 32 0 @ [104, 105 :: byte])
   \<and> take 32 (replicate 32 0 @ [104, 105 :: byte]) = replicate 32 0
   \<and> fst (xsalsa20poly1305_secretbox_open length_mac (replicate 34 9)
        (fst (snd (xsalsa20poly1305_secretbox length_mac (replicate 34 8)
           (replicate 32 0 @ [104, 105]) nonce0 key0))) nonce0 key0) = None
   \<and> fst (snd (xsalsa20poly1305_secretbox_open length_mac (replicate 34 9)
        (fst (snd (xsalsa20poly1305_secretbox length_mac (replicate 34 8)
           (replicate 32 0 @ [104, 105]) nonce0 key0))) nonce0 key0))
       = replicate 32 0 @ [104, 105]"
proof -
  have P: "poly1305_contract length_mac"
    by (simp add: poly1305_contract_def length_mac_def)
  have k: "length key0 = 32" and n: "length nonce0 = 24"
    by (simp_all add: key0_def nonce0_def)
  have m: "32 \<le> length (replicate 32 0 @ [104, 105 :: byte])" by simp
  have z: "take 32 (replicate 32 0 @ [104, 105 :: byte]) = replicate 32 0" by simp
  have c: "length (replicate 34 (8 :: byte)) = length (replicate 32 0 @ [104, 105 :: byte])"
    and p: "length (replicate 34 (9 :: byte)) = length (replicate 32 0 @ [104, 105 :: byte])"
    by simp_all
  from seal_open_roundtrip [OF P k n m z c p] P k n m z show ?thesis by blast
qed

subsection \<open>What is left in the local arrays\<close>












end
